theory Spec2Isabelle
  imports Main
begin

section \<open>The wire envelope and its JSON form\<close>

text \<open>
  \<^verbatim>\<open>client_manager.go\<close> declares the envelope
  \<^verbatim>\<open>type Message struct { Sender, Recipient, Content string }\<close>, every field tagged
  \<^verbatim>\<open>json:"...,omitempty"\<close>. Payloads on channels are \<^verbatim>\<open>[]byte\<close>; a byte is a
  \<^typ>\<open>char\<close>.
\<close>

type_synonym bytes = string

record Message =
  Sender :: string
  Recipient :: string
  Content :: string

text \<open>
  \<^verbatim>\<open>Message{Content: "..."}\<close> leaves the other fields at Go's zero value, the empty
  string.
\<close>

definition Message_zero :: Message where
  "Message_zero = \<lparr>Sender = [], Recipient = [], Content = []\<rparr>"

text \<open>
  \<^verbatim>\<open>encoding/json\<close> is Go's library, not code of the repository; its output on a
  struct of strings is modelled here after Go 1.22. The string encoder is the library's
  \<^verbatim>\<open>appendString\<close> with HTML escaping on, as \<^verbatim>\<open>json.Marshal\<close> has it: a byte below
  0x80 is copied or escaped; from 0x80 on a well-formed UTF-8 sequence is copied, except
  U+2028 and U+2029, which are escaped, and a byte that begins no well-formed sequence
  becomes \<^verbatim>\<open>\ufffd\<close>. The object layout is that of \<^verbatim>\<open>omitempty\<close>: the fields in
  declaration order, an empty string left out.
\<close>

definition dquote :: char where
  "dquote = CHR 0x22"

definition backslash :: char where
  "backslash = CHR 0x5C"

definition hexdigit :: "nat \<Rightarrow> char" where
  "hexdigit n = ''0123456789abcdef'' ! (n mod 16)"

definition encodeByte :: "char \<Rightarrow> string" where
  "encodeByte c =
     (if c = dquote \<or> c = backslash then [backslash, c]
      else if c = CHR 0x08 then [backslash, CHR ''b'']
      else if c = CHR 0x0C then [backslash, CHR ''f'']
      else if c = CHR 0x0A then [backslash, CHR ''n'']
      else if c = CHR 0x0D then [backslash, CHR ''r'']
      else if c = CHR 0x09 then [backslash, CHR ''t'']
      else if (of_char c :: nat) < 32 \<or> c = CHR ''<'' \<or> c = CHR ''>'' \<or> c = CHR ''&''
        then [backslash, CHR ''u'', CHR ''0'', CHR ''0'',
              hexdigit ((of_char c :: nat) div 16), hexdigit (of_char c :: nat)]
      else [c])"

text \<open>
  \<open>rune_size\<close> is the width of the UTF-8 sequence at the head of the bytes, as
  \<^verbatim>\<open>utf8.DecodeRuneInString\<close> accepts it, and 0 when there is none.
\<close>

definition between :: "nat \<Rightarrow> char \<Rightarrow> nat \<Rightarrow> bool" where
  "between lo c hi = (lo \<le> of_char c \<and> (of_char c :: nat) \<le> hi)"

definition rune_size :: "string \<Rightarrow> nat" where
  "rune_size bs =
     (case bs of
        [] \<Rightarrow> 0
      | b0 # r \<Rightarrow>
          if between 0xC2 b0 0xDF then
            (case r of b1 # _ \<Rightarrow> if between 0x80 b1 0xBF then 2 else 0 | _ \<Rightarrow> 0)
          else if between 0xE0 b0 0xEF then
            (case r of
               b1 # b2 # _ \<Rightarrow>
                 if between (if b0 = CHR 0xE0 then 0xA0 else 0x80) b1
                      (if b0 = CHR 0xED then 0x9F else 0xBF)
                    \<and> between 0x80 b2 0xBF
                 then 3 else 0
             | _ \<Rightarrow> 0)
          else if between 0xF0 b0 0xF4 then
            (case r of
               b1 # b2 # b3 # _ \<Rightarrow>
                 if between (if b0 = CHR 0xF0 then 0x90 else 0x80) b1
                      (if b0 = CHR 0xF4 then 0x8F else 0xBF)
                    \<and> between 0x80 b2 0xBF \<and> between 0x80 b3 0xBF
                 then 4 else 0
             | _ \<Rightarrow> 0)
          else 0)"

function encodeRunes :: "string \<Rightarrow> string" where
  "encodeRunes [] = []"
| "encodeRunes (c # cs) =
     (if (of_char c :: nat) < 128 then encodeByte c @ encodeRunes cs
      else if rune_size (c # cs) = 0 then
        [backslash, CHR ''u'', CHR ''f'', CHR ''f'', CHR ''f'', CHR ''d''] @ encodeRunes cs
      else if take 3 (c # cs) = [CHR 0xE2, CHR 0x80, CHR 0xA8] then
        [backslash, CHR ''u'', CHR ''2'', CHR ''0'', CHR ''2'', CHR ''8''] @ encodeRunes (drop 2 cs)
      else if take 3 (c # cs) = [CHR 0xE2, CHR 0x80, CHR 0xA9] then
        [backslash, CHR ''u'', CHR ''2'', CHR ''0'', CHR ''2'', CHR ''9''] @ encodeRunes (drop 2 cs)
      else take (rune_size (c # cs)) (c # cs) @ encodeRunes (drop (rune_size (c # cs) - 1) cs))"
  by pat_completeness auto
termination
  by (relation "measure length") auto

definition encodeString :: "string \<Rightarrow> string" where
  "encodeString s = dquote # encodeRunes s @ [dquote]"

definition field :: "string \<Rightarrow> string \<Rightarrow> string list" where
  "field name v = (if v = [] then [] else [dquote # name @ [dquote] @ '':'' @ encodeString v])"

fun commas :: "string list \<Rightarrow> string" where
  "commas [] = []"
| "commas [x] = x"
| "commas (x # y # ys) = x @ '','' @ commas (y # ys)"

datatype marshal_error = MarshalError

type_synonym marshal = "Message \<Rightarrow> marshal_error + bytes"

definition json_Marshal :: marshal where
  "json_Marshal m =
     Inr (''{'' @ commas (field ''sender'' (Sender m) @ field ''recipient'' (Recipient m)
                           @ field ''content'' (Content m)) @ ''}'')"

text \<open>
  Every call site binds the result as \<^verbatim>\<open>msg, _ := json.Marshal(...)\<close>: the error is
  discarded, and what the library returns beside an error is the nil slice.
\<close>

definition discard_err :: "marshal_error + bytes \<Rightarrow> bytes" where
  "discard_err r = (case r of Inl _ \<Rightarrow> [] | Inr b \<Rightarrow> b)"

section \<open>Channels, clients and the manager's state\<close>

text \<open>
  A channel of the outbound queue, \<^verbatim>\<open>send chan []byte\<close>: \<open>sent\<close> lists the values
  the channel has accepted, oldest first, and \<open>closed\<close> says whether \<^verbatim>\<open>close\<close>
  has run on it. Go panics on a send to a closed channel and on a second close.
\<close>

record chan =
  sent :: "bytes list"
  closed :: bool

definition make_chan :: chan where
  "make_chan = \<lparr>sent = [], closed = False\<rparr>"

datatype panic = SendOnClosedChannel | CloseOfClosedChannel | NilDereference

text \<open>
  \<^verbatim>\<open>ch <- v\<close>, the blocking send of \<^verbatim>\<open>ClientManager.send\<close>: it returns once the
  writer pump (\<^verbatim>\<open>for message := range c.send\<close>) has taken the value. The pump takes
  every value offered to an open channel; how long the manager waits for it is not
  modelled.
\<close>

definition chan_send :: "bytes \<Rightarrow> chan \<Rightarrow> panic + chan" where
  "chan_send v ch =
     (if closed ch then Inl SendOnClosedChannel else Inr (ch\<lparr>sent := sent ch @ [v]\<rparr>))"

definition chan_close :: "chan \<Rightarrow> panic + chan" where
  "chan_close ch = (if closed ch then Inl CloseOfClosedChannel else Inr (ch\<lparr>closed := True\<rparr>))"

text \<open>
  \<^verbatim>\<open>Client\<close> of \<^verbatim>\<open>client_manager.go\<close> (the socket is not modelled). A \<^verbatim>\<open>*Client\<close>
  is an index into the heap of the clients \<^verbatim>\<open>wsHandler\<close> has created; an index past
  its end is a pointer to no client, and reading through it panics.
\<close>

record Client =
  id_str :: string
  send :: chan

type_synonym ref = nat

text \<open>
  \<open>clients\<close> holds the keys of \<^verbatim>\<open>manager.clients\<close> (a \<^verbatim>\<open>map[*Client]bool\<close> whose
  values are all \<^verbatim>\<open>true\<close>), in the order a \<^verbatim>\<open>range\<close> visits them.
\<close>

record state =
  clients :: "ref list"
  heap :: "Client list"

definition init :: state where
  "init = \<lparr>clients = [], heap = []\<rparr>"

definition chan_of :: "state \<Rightarrow> ref \<Rightarrow> chan" where
  "chan_of s conn = send (heap s ! conn)"

definition queue :: "state \<Rightarrow> ref \<Rightarrow> bytes list" where
  "queue s conn = sent (chan_of s conn)"

definition is_closed :: "state \<Rightarrow> ref \<Rightarrow> bool" where
  "is_closed s conn = closed (chan_of s conn)"

definition registered :: "state \<Rightarrow> ref \<Rightarrow> bool" where
  "registered s conn = (conn \<in> set (clients s))"

definition set_chan :: "ref \<Rightarrow> chan \<Rightarrow> state \<Rightarrow> state" where
  "set_chan conn ch s = s\<lparr>heap := (heap s)[conn := (heap s ! conn)\<lparr>send := ch\<rparr>]\<rparr>"

definition map_delete :: "ref \<Rightarrow> state \<Rightarrow> state" where
  "map_delete conn s = s\<lparr>clients := removeAll conn (clients s)\<rparr>"

definition map_store :: "ref \<Rightarrow> state \<Rightarrow> state" where
  "map_store conn s = s\<lparr>clients := List.insert conn (clients s)\<rparr>"

section \<open>The manager: \<^verbatim>\<open>manager.go\<close>\<close>

text \<open>
  \<^verbatim>\<open>func (m *ClientManager) send(message []byte, ignore *Client)\<close>: a blocking send to
  every registered client but \<open>ignore\<close>.
\<close>

fun send_range :: "bytes \<Rightarrow> ref \<Rightarrow> ref list \<Rightarrow> state \<Rightarrow> panic + state" where
  "send_range message ignore [] s = Inr s"
| "send_range message ignore (conn # rest) s =
     (if conn \<noteq> ignore then
        (if conn < length (heap s) then
           (case chan_send message (chan_of s conn) of
              Inl e \<Rightarrow> Inl e
            | Inr ch \<Rightarrow> send_range message ignore rest (set_chan conn ch s))
         else Inl NilDereference)
      else send_range message ignore rest s)"

definition ClientManager_send :: "bytes \<Rightarrow> ref \<Rightarrow> state \<Rightarrow> panic + state" where
  "ClientManager_send message ignore s = send_range message ignore (clients s) s"

text \<open>
  The \<^verbatim>\<open>broadcast\<close> case: \<^verbatim>\<open>select { case conn.send <- message: default: ... }\<close> for
  every registered client. Whether the send can proceed at that moment (the writer pump
  is waiting on the unbuffered channel) is the scheduler's choice, the argument \<open>ready\<close>.
  A send case on a closed channel panics. The loop deletes only the key it is visiting,
  so it visits every key the map had when it began.
\<close>

type_synonym sched = "ref \<Rightarrow> bool"

fun broadcast_range :: "sched \<Rightarrow> bytes \<Rightarrow> ref list \<Rightarrow> state \<Rightarrow> panic + state" where
  "broadcast_range ready message [] s = Inr s"
| "broadcast_range ready message (conn # rest) s =
     (if conn < length (heap s) then
        (if closed (chan_of s conn) then Inl SendOnClosedChannel
         else if ready conn then
           (case chan_send message (chan_of s conn) of
              Inl e \<Rightarrow> Inl e
            | Inr ch \<Rightarrow> broadcast_range ready message rest (set_chan conn ch s))
         else
           (case chan_close (chan_of s conn) of
              Inl e \<Rightarrow> Inl e
            | Inr ch \<Rightarrow> broadcast_range ready message rest (map_delete conn (set_chan conn ch s))))
      else Inl NilDereference)"

definition broadcast :: "sched \<Rightarrow> bytes \<Rightarrow> state \<Rightarrow> panic + state" where
  "broadcast ready message s = broadcast_range ready message (clients s) s"

text \<open>The notices of the \<^verbatim>\<open>register\<close> and \<^verbatim>\<open>unregister\<close> cases.\<close>

definition join_Message :: Message where
  "join_Message = Message_zero\<lparr>Content := ''New client connected''\<rparr>"

definition leave_Message :: Message where
  "leave_Message = Message_zero\<lparr>Content := ''/A socket disconnected.''\<rparr>"

definition join_notice :: "marshal \<Rightarrow> bytes" where
  "join_notice mar = discard_err (mar join_Message)"

definition leave_notice :: "marshal \<Rightarrow> bytes" where
  "leave_notice mar = discard_err (mar leave_Message)"

definition register :: "marshal \<Rightarrow> ref \<Rightarrow> state \<Rightarrow> panic + state" where
  "register mar conn s = ClientManager_send (join_notice mar) conn (map_store conn s)"

definition unregister :: "marshal \<Rightarrow> ref \<Rightarrow> state \<Rightarrow> panic + state" where
  "unregister mar conn s =
     (if conn \<in> set (clients s) then
        (if conn < length (heap s) then
           (case chan_close (chan_of s conn) of
              Inl e \<Rightarrow> Inl e
            | Inr ch \<Rightarrow>
                ClientManager_send (leave_notice mar) conn (map_delete conn (set_chan conn ch s)))
         else Inl NilDereference)
      else Inr s)"

text \<open>
  \<^verbatim>\<open>func (manager *ClientManager) start()\<close>: one iteration of the \<^verbatim>\<open>select\<close> takes one
  request from one of the three channels; the loop is the recursion over the requests it
  receives, and a panic ends it.
\<close>

datatype request = Register ref | Unregister ref | Broadcast bytes

fun start_iter :: "marshal \<Rightarrow> sched \<Rightarrow> request \<Rightarrow> state \<Rightarrow> panic + state" where
  "start_iter mar ready (Register conn) s = register mar conn s"
| "start_iter mar ready (Unregister conn) s = unregister mar conn s"
| "start_iter mar ready (Broadcast message) s = broadcast ready message s"

fun start :: "marshal \<Rightarrow> (request \<times> sched) list \<Rightarrow> state \<Rightarrow> panic + state" where
  "start mar [] s = Inr s"
| "start mar ((req, ready) # reqs) s =
     (case start_iter mar ready req s of Inl e \<Rightarrow> Inl e | Inr s' \<Rightarrow> start mar reqs s')"

section \<open>The pumps and the upgrade handler\<close>

text \<open>
  \<^verbatim>\<open>func (c *Client) read()\<close>: the loop reads the socket until a read fails. Its input
  is the list of results of \<^verbatim>\<open>ReadMessage\<close> (\<open>Some\<close> a text, \<open>None\<close> an error), its
  output the requests it puts on the manager's channels: a broadcast per text; on the
  error an unregister from the loop and one more from the deferred function. At the end
  of the list the loop is waiting for the next read.
\<close>

definition wrap :: "marshal \<Rightarrow> string \<Rightarrow> bytes \<Rightarrow> bytes" where
  "wrap mar ident message =
     discard_err (mar (Message_zero\<lparr>Sender := ident, Content := message\<rparr>))"

fun Client_read :: "marshal \<Rightarrow> string \<Rightarrow> ref \<Rightarrow> bytes option list \<Rightarrow> request list" where
  "Client_read mar ident c [] = []"
| "Client_read mar ident c (None # _) = [Unregister c, Unregister c]"
| "Client_read mar ident c (Some message # rest) =
     Broadcast (wrap mar ident message) # Client_read mar ident c rest"



text \<open>
  \<^verbatim>\<open>wsHandler\<close> after a successful upgrade: a new client with a fresh identifier and a
  new channel, handed to the manager's \<^verbatim>\<open>register\<close> case.
\<close>

definition new_client :: "string \<Rightarrow> state \<Rightarrow> state" where
  "new_client uuid s = s\<lparr>heap := heap s @ [\<lparr>id_str = uuid, send = make_chan\<rparr>]\<rparr>"

definition wsHandler :: "marshal \<Rightarrow> string \<Rightarrow> state \<Rightarrow> panic + state" where
  "wsHandler mar uuid s = register mar (length (heap s)) (new_client uuid s)"

text \<open>
  What the manager meets in a run of the server: clients that \<^verbatim>\<open>wsHandler\<close> creates and
  registers, unregister requests for any pointer, and broadcasts of any payload under any
  scheduling of the writer pumps.
\<close>

datatype event = Connect string | Disconnect ref | Deliver bytes sched

fun step :: "marshal \<Rightarrow> event \<Rightarrow> state \<Rightarrow> panic + state" where
  "step mar (Connect uuid) s = wsHandler mar uuid s"
| "step mar (Disconnect conn) s = unregister mar conn s"
| "step mar (Deliver message ready) s = broadcast ready message s"

fun run :: "marshal \<Rightarrow> event list \<Rightarrow> state \<Rightarrow> panic + state" where
  "run mar [] s = Inr s"
| "run mar (e # es) s = (case step mar e s of Inl x \<Rightarrow> Inl x | Inr s' \<Rightarrow> run mar es s')"

section \<open>The registry invariant\<close>

text \<open>
  The keys of the map are distinct pointers to clients that exist, and a client that
  exists is a key of the map exactly when its channel has not been closed.
\<close>

definition hub_inv :: "state \<Rightarrow> bool" where
  "hub_inv s =
     (distinct (clients s) \<and> (\<forall>c \<in> set (clients s). c < length (heap s)) \<and>
      (\<forall>c \<in> {..<length (heap s)}. registered s c = (\<not> is_closed s c)))"

section \<open>The iteration order of the map\<close>

text \<open>
  Go leaves the order in which \<^verbatim>\<open>range\<close> visits a map open. Two states are the same
  to the program when they agree on the heap and on the set of keys.
\<close>

definition same_map :: "state \<Rightarrow> state \<Rightarrow> bool" where
  "same_map s t = (heap s = heap t \<and> set (clients s) = set (clients t))"

section \<open>Two small states of a running server\<close>

text \<open>
  \<open>ex_A\<close> is the state after one client has connected, \<open>ex_AB\<close> the state after a
  second one has, the first having received the join notice.
\<close>

definition ex_A :: state where
  "ex_A = \<lparr>clients = [0], heap = [\<lparr>id_str = ''A'', send = make_chan\<rparr>]\<rparr>"

definition ex_AB :: state where
  "ex_AB = \<lparr>clients = [1, 0],
            heap = [\<lparr>id_str = ''A'', send = \<lparr>sent = [join_notice json_Marshal], closed = False\<rparr>\<rparr>,
                    \<lparr>id_str = ''B'', send = make_chan\<rparr>]\<rparr>"

section \<open>Reading and writing the state\<close>

lemma clients_init: "clients init = []"
  by (simp add: init_def)

lemma clients_set_chan [simp]: "clients (set_chan c ch s) = clients s"
  by (simp add: set_chan_def)

lemma length_heap_set_chan [simp]: "length (heap (set_chan c ch s)) = length (heap s)"
  by (simp add: set_chan_def)

lemma chan_of_set_chan:
  "chan_of (set_chan c ch s) c' = (if c' = c \<and> c < length (heap s) then ch else chan_of s c')"
  by (cases "c < length (heap s)")
    (simp_all add: set_chan_def chan_of_def nth_list_update list_update_beyond)

lemma id_str_set_chan [simp]: "id_str (heap (set_chan c ch s) ! c') = id_str (heap s ! c')"
  by (cases "c < length (heap s)") (simp_all add: set_chan_def nth_list_update list_update_beyond)

lemma clients_map_delete [simp]: "clients (map_delete c s) = removeAll c (clients s)"
  by (simp add: map_delete_def)

lemma heap_map_delete [simp]: "heap (map_delete c s) = heap s"
  by (simp add: map_delete_def)

lemma chan_of_map_delete [simp]: "chan_of (map_delete c s) c' = chan_of s c'"
  by (simp add: chan_of_def)

lemma clients_map_store [simp]: "clients (map_store c s) = List.insert c (clients s)"
  by (simp add: map_store_def)

lemma heap_map_store [simp]: "heap (map_store c s) = heap s"
  by (simp add: map_store_def)

lemma chan_of_map_store [simp]: "chan_of (map_store c s) c' = chan_of s c'"
  by (simp add: chan_of_def)

section \<open>What the two loops do\<close>

lemma send_range_spec:
  assumes "distinct cs"
    and "\<forall>c\<in>set cs. c \<noteq> ig \<longrightarrow> c < length (heap s) \<and> \<not> closed (chan_of s c)"
  shows "\<exists>s'. send_range m ig cs s = Inr s' \<and> clients s' = clients s
           \<and> length (heap s') = length (heap s)
           \<and> (\<forall>c. id_str (heap s' ! c) = id_str (heap s ! c))
           \<and> (\<forall>c. closed (chan_of s' c) = closed (chan_of s c))
           \<and> (\<forall>c. sent (chan_of s' c) = sent (chan_of s c) @ (if c \<in> set cs \<and> c \<noteq> ig then [m] else []))"
  using assms
proof (induction cs arbitrary: s)
  case Nil
  then show ?case by simp
next
  case (Cons conn rest)
  show ?case
  proof (cases "conn = ig")
    case True
    with Cons.prems have "distinct rest"
      and "\<forall>c\<in>set rest. c \<noteq> ig \<longrightarrow> c < length (heap s) \<and> \<not> closed (chan_of s c)"
      and "ig \<notin> set rest"
      by auto
    from Cons.IH [OF this(1,2)] True show ?thesis by auto
  next
    case False
    let ?ch = "(chan_of s conn)\<lparr>sent := sent (chan_of s conn) @ [m]\<rparr>"
    let ?s1 = "set_chan conn ?ch s"
    from Cons.prems False have valid: "conn < length (heap s)" and opn: "\<not> closed (chan_of s conn)"
      and notin: "conn \<notin> set rest" and d: "distinct rest"
      by auto
    have pre: "\<forall>c\<in>set rest. c \<noteq> ig \<longrightarrow> c < length (heap ?s1) \<and> \<not> closed (chan_of ?s1 c)"
      using Cons.prems notin by (auto simp: chan_of_set_chan)
    from Cons.IH [OF d pre] obtain s' where s': "send_range m ig rest ?s1 = Inr s'"
      "clients s' = clients ?s1" "length (heap s') = length (heap ?s1)"
      "\<forall>c. id_str (heap s' ! c) = id_str (heap ?s1 ! c)"
      "\<forall>c. closed (chan_of s' c) = closed (chan_of ?s1 c)"
      "\<forall>c. sent (chan_of s' c) = sent (chan_of ?s1 c) @ (if c \<in> set rest \<and> c \<noteq> ig then [m] else [])"
      by blast
    have "send_range m ig (conn # rest) s = Inr s'"
      using False valid opn s'(1) by (simp add: chan_send_def)
    moreover have "\<forall>c. closed (chan_of s' c) = closed (chan_of s c)"
      using s'(5) valid by (simp add: chan_of_set_chan)
    moreover have "\<forall>c. sent (chan_of s' c) = sent (chan_of s c) @ (if c \<in> set (conn # rest) \<and> c \<noteq> ig then [m] else [])"
      using s'(6) valid notin False by (auto simp: chan_of_set_chan)
    ultimately show ?thesis using s'(2,3,4) by simp
  qed
qed

lemma broadcast_range_spec:
  assumes "distinct cs"
    and "\<forall>c\<in>set cs. c < length (heap s) \<and> \<not> closed (chan_of s c)"
  shows "\<exists>s'. broadcast_range rdy m cs s = Inr s'
           \<and> clients s' = filter (\<lambda>c. c \<notin> set cs \<or> rdy c) (clients s)
           \<and> length (heap s') = length (heap s)
           \<and> (\<forall>c. id_str (heap s' ! c) = id_str (heap s ! c))
           \<and> (\<forall>c. closed (chan_of s' c) = (closed (chan_of s c) \<or> c \<in> set cs \<and> \<not> rdy c))
           \<and> (\<forall>c. sent (chan_of s' c) = sent (chan_of s c) @ (if c \<in> set cs \<and> rdy c then [m] else []))"
  using assms
proof (induction cs arbitrary: s)
  case Nil
  then show ?case by simp
next
  case (Cons conn rest)
  from Cons.prems have valid: "conn < length (heap s)" and opn: "\<not> closed (chan_of s conn)"
    and notin: "conn \<notin> set rest" and d: "distinct rest"
    by auto
  show ?case
  proof (cases "rdy conn")
    case True
    let ?ch = "(chan_of s conn)\<lparr>sent := sent (chan_of s conn) @ [m]\<rparr>"
    let ?s1 = "set_chan conn ?ch s"
    have pre: "\<forall>c\<in>set rest. c < length (heap ?s1) \<and> \<not> closed (chan_of ?s1 c)"
      using Cons.prems notin by (auto simp: chan_of_set_chan)
    from Cons.IH [OF d pre] obtain s' where s': "broadcast_range rdy m rest ?s1 = Inr s'"
      "clients s' = filter (\<lambda>c. c \<notin> set rest \<or> rdy c) (clients ?s1)"
      "length (heap s') = length (heap ?s1)"
      "\<forall>c. id_str (heap s' ! c) = id_str (heap ?s1 ! c)"
      "\<forall>c. closed (chan_of s' c) = (closed (chan_of ?s1 c) \<or> c \<in> set rest \<and> \<not> rdy c)"
      "\<forall>c. sent (chan_of s' c) = sent (chan_of ?s1 c) @ (if c \<in> set rest \<and> rdy c then [m] else [])"
      by blast
    have "broadcast_range rdy m (conn # rest) s = Inr s'"
      using True valid opn s'(1) by (simp add: chan_send_def)
    moreover have "clients s' = filter (\<lambda>c. c \<notin> set (conn # rest) \<or> rdy c) (clients s)"
      using s'(2) True by (auto intro: filter_cong)
    moreover have "\<forall>c. closed (chan_of s' c) = (closed (chan_of s c) \<or> c \<in> set (conn # rest) \<and> \<not> rdy c)"
      using s'(5) valid True by (auto simp: chan_of_set_chan)
    moreover have "\<forall>c. sent (chan_of s' c) = sent (chan_of s c) @ (if c \<in> set (conn # rest) \<and> rdy c then [m] else [])"
      using s'(6) valid notin True by (auto simp: chan_of_set_chan)
    ultimately show ?thesis using s'(3,4) by simp
  next
    case False
    let ?ch = "(chan_of s conn)\<lparr>closed := True\<rparr>"
    let ?s1 = "map_delete conn (set_chan conn ?ch s)"
    have pre: "\<forall>c\<in>set rest. c < length (heap ?s1) \<and> \<not> closed (chan_of ?s1 c)"
      using Cons.prems notin by (auto simp: chan_of_set_chan)
    from Cons.IH [OF d pre] obtain s' where s': "broadcast_range rdy m rest ?s1 = Inr s'"
      "clients s' = filter (\<lambda>c. c \<notin> set rest \<or> rdy c) (clients ?s1)"
      "length (heap s') = length (heap ?s1)"
      "\<forall>c. id_str (heap s' ! c) = id_str (heap ?s1 ! c)"
      "\<forall>c. closed (chan_of s' c) = (closed (chan_of ?s1 c) \<or> c \<in> set rest \<and> \<not> rdy c)"
      "\<forall>c. sent (chan_of s' c) = sent (chan_of ?s1 c) @ (if c \<in> set rest \<and> rdy c then [m] else [])"
      by blast
    have "broadcast_range rdy m (conn # rest) s = Inr s'"
      using False valid opn s'(1) by (simp add: chan_close_def)
    moreover have "clients s' = filter (\<lambda>c. c \<notin> set (conn # rest) \<or> rdy c) (clients s)"
      using s'(2) False by (auto simp: removeAll_filter_not_eq intro: filter_cong)
    moreover have "\<forall>c. closed (chan_of s' c) = (closed (chan_of s c) \<or> c \<in> set (conn # rest) \<and> \<not> rdy c)"
      using s'(5) valid False by (auto simp: chan_of_set_chan)
    moreover have "\<forall>c. sent (chan_of s' c) = sent (chan_of s c) @ (if c \<in> set (conn # rest) \<and> rdy c then [m] else [])"
      using s'(6) valid notin False by (auto simp: chan_of_set_chan)
    ultimately show ?thesis using s'(3,4) by simp
  qed
qed

section \<open>What each request does to a state that satisfies the invariant\<close>

lemma hub_invD:
  assumes "hub_inv s"
  shows "distinct (clients s)"
    and "c \<in> set (clients s) \<Longrightarrow> c < length (heap s)"
    and "c \<in> set (clients s) \<Longrightarrow> \<not> is_closed s c"
    and "c < length (heap s) \<Longrightarrow> \<not> is_closed s c \<Longrightarrow> c \<in> set (clients s)"
  using assms by (auto simp: hub_inv_def registered_def)

lemma register_spec:
  assumes "distinct (clients s)"
    and "\<forall>c\<in>set (clients s). c \<noteq> conn \<longrightarrow> c < length (heap s) \<and> \<not> is_closed s c"
  shows "\<exists>s'. register mar conn s = Inr s'
           \<and> clients s' = List.insert conn (clients s)
           \<and> length (heap s') = length (heap s)
           \<and> (\<forall>c. id_str (heap s' ! c) = id_str (heap s ! c))
           \<and> (\<forall>c. is_closed s' c = is_closed s c)
           \<and> (\<forall>c. queue s' c = queue s c @ (if c \<in> set (clients s) \<and> c \<noteq> conn then [join_notice mar] else []))"
proof -
  let ?s0 = "map_store conn s"
  have d: "distinct (clients ?s0)"
    using assms(1) by simp
  have pre: "\<forall>c\<in>set (clients ?s0). c \<noteq> conn \<longrightarrow> c < length (heap ?s0) \<and> \<not> closed (chan_of ?s0 c)"
    using assms(2) by (simp add: is_closed_def)
  from send_range_spec [OF d pre, of "join_notice mar"] show ?thesis
    by (auto simp: register_def ClientManager_send_def is_closed_def queue_def)
qed

lemma unregister_spec:
  assumes "hub_inv s" and "conn \<in> set (clients s)"
  shows "\<exists>s'. unregister mar conn s = Inr s'
           \<and> clients s' = removeAll conn (clients s)
           \<and> length (heap s') = length (heap s)
           \<and> (\<forall>c. id_str (heap s' ! c) = id_str (heap s ! c))
           \<and> (\<forall>c. is_closed s' c = (is_closed s c \<or> c = conn))
           \<and> (\<forall>c. queue s' c = queue s c @ (if c \<in> set (clients s) \<and> c \<noteq> conn then [leave_notice mar] else []))"
proof -
  let ?ch = "(chan_of s conn)\<lparr>closed := True\<rparr>"
  let ?s0 = "map_delete conn (set_chan conn ?ch s)"
  have valid: "conn < length (heap s)" and opn: "\<not> closed (chan_of s conn)"
    using hub_invD(2,3) [OF assms] by (simp_all add: is_closed_def)
  have d: "distinct (clients ?s0)"
    using hub_invD(1) [OF assms(1)] by (simp add: distinct_removeAll)
  have pre: "\<forall>c\<in>set (clients ?s0). c \<noteq> conn \<longrightarrow> c < length (heap ?s0) \<and> \<not> closed (chan_of ?s0 c)"
    using hub_invD(2,3) [OF assms(1)] by (auto simp: chan_of_set_chan is_closed_def)
  have eq: "unregister mar conn s = send_range (leave_notice mar) conn (clients ?s0) ?s0"
    using assms(2) valid opn by (simp add: unregister_def chan_close_def ClientManager_send_def)
  from send_range_spec [OF d pre, of "leave_notice mar"] obtain s'
    where s': "send_range (leave_notice mar) conn (clients ?s0) ?s0 = Inr s'"
      "clients s' = clients ?s0" "length (heap s') = length (heap ?s0)"
      "\<forall>c. id_str (heap s' ! c) = id_str (heap ?s0 ! c)"
      "\<forall>c. closed (chan_of s' c) = closed (chan_of ?s0 c)"
      "\<forall>c. sent (chan_of s' c) = sent (chan_of ?s0 c) @ (if c \<in> set (clients ?s0) \<and> c \<noteq> conn then [leave_notice mar] else [])"
    by blast
  have "\<forall>c. is_closed s' c = (is_closed s c \<or> c = conn)"
    using s'(5) valid by (auto simp: is_closed_def chan_of_set_chan)
  moreover have "\<forall>c. queue s' c = queue s c @ (if c \<in> set (clients s) \<and> c \<noteq> conn then [leave_notice mar] else [])"
    using s'(6) valid by (auto simp: queue_def chan_of_set_chan)
  ultimately show ?thesis
    using eq s'(1,2,3,4) by simp
qed

lemma unregister_absent: "conn \<notin> set (clients s) \<Longrightarrow> unregister mar conn s = Inr s"
  by (simp add: unregister_def)

lemma broadcast_spec:
  assumes "hub_inv s"
  shows "\<exists>s'. broadcast rdy m s = Inr s'
           \<and> clients s' = filter rdy (clients s)
           \<and> length (heap s') = length (heap s)
           \<and> (\<forall>c. id_str (heap s' ! c) = id_str (heap s ! c))
           \<and> (\<forall>c. is_closed s' c = (is_closed s c \<or> c \<in> set (clients s) \<and> \<not> rdy c))
           \<and> (\<forall>c. queue s' c = queue s c @ (if c \<in> set (clients s) \<and> rdy c then [m] else []))"
proof -
  have pre: "\<forall>c\<in>set (clients s). c < length (heap s) \<and> \<not> closed (chan_of s c)"
    using hub_invD(2,3) [OF assms] by (auto simp: is_closed_def)
  from broadcast_range_spec [OF hub_invD(1) [OF assms] pre, of rdy m] obtain s'
    where s': "broadcast_range rdy m (clients s) s = Inr s'"
      "clients s' = filter (\<lambda>c. c \<notin> set (clients s) \<or> rdy c) (clients s)"
      "length (heap s') = length (heap s)"
      "\<forall>c. id_str (heap s' ! c) = id_str (heap s ! c)"
      "\<forall>c. closed (chan_of s' c) = (closed (chan_of s c) \<or> c \<in> set (clients s) \<and> \<not> rdy c)"
      "\<forall>c. sent (chan_of s' c) = sent (chan_of s c) @ (if c \<in> set (clients s) \<and> rdy c then [m] else [])"
    by blast
  have "clients s' = filter rdy (clients s)"
    using s'(2) by (auto intro: filter_cong)
  then show ?thesis
    using s' by (simp add: broadcast_def is_closed_def queue_def)
qed

lemma length_heap_new_client [simp]: "length (heap (new_client uuid s)) = Suc (length (heap s))"
  by (simp add: new_client_def)

lemma clients_new_client [simp]: "clients (new_client uuid s) = clients s"
  by (simp add: new_client_def)

lemma heap_new_client_old: "c < length (heap s) \<Longrightarrow> heap (new_client uuid s) ! c = heap s ! c"
  by (simp add: new_client_def nth_append)

lemma heap_new_client_new:
  "heap (new_client uuid s) ! length (heap s) = \<lparr>id_str = uuid, send = make_chan\<rparr>"
  by (simp add: new_client_def)

lemma wsHandler_spec:
  assumes "hub_inv s"
  shows "\<exists>s'. wsHandler mar uuid s = Inr s'
           \<and> clients s' = length (heap s) # clients s
           \<and> length (heap s') = Suc (length (heap s))
           \<and> id_str (heap s' ! length (heap s)) = uuid
           \<and> (\<forall>c<length (heap s). id_str (heap s' ! c) = id_str (heap s ! c))
           \<and> \<not> is_closed s' (length (heap s))
           \<and> (\<forall>c<length (heap s). is_closed s' c = is_closed s c)
           \<and> queue s' (length (heap s)) = []
           \<and> (\<forall>c<length (heap s). queue s' c = queue s c @ (if c \<in> set (clients s) then [join_notice mar] else []))"
proof -
  let ?n = "length (heap s)"
  let ?s0 = "new_client uuid s"
  have fresh: "?n \<notin> set (clients s)"
    using hub_invD(2) [OF assms, of ?n] by auto
  have old: "\<And>c. c < ?n \<Longrightarrow> chan_of ?s0 c = chan_of s c"
    by (simp add: chan_of_def heap_new_client_old)
  have d: "distinct (clients ?s0)"
    using hub_invD(1) [OF assms] by simp
  have pre: "\<forall>c\<in>set (clients ?s0). c \<noteq> ?n \<longrightarrow> c < length (heap ?s0) \<and> \<not> is_closed ?s0 c"
    using hub_invD(2,3) [OF assms] old by (auto simp: is_closed_def less_Suc_eq)
  from register_spec [OF d pre, of mar] obtain s'
    where s': "register mar ?n ?s0 = Inr s'"
      "clients s' = List.insert ?n (clients ?s0)"
      "length (heap s') = length (heap ?s0)"
      "\<forall>c. id_str (heap s' ! c) = id_str (heap ?s0 ! c)"
      "\<forall>c. is_closed s' c = is_closed ?s0 c"
      "\<forall>c. queue s' c = queue ?s0 c @ (if c \<in> set (clients ?s0) \<and> c \<noteq> ?n then [join_notice mar] else [])"
    by blast
  have "clients s' = ?n # clients s"
    using s'(2) fresh by simp
  moreover have "id_str (heap s' ! ?n) = uuid" "\<not> is_closed s' ?n" "queue s' ?n = []"
    using s'(4,5,6) by (simp_all add: heap_new_client_new is_closed_def queue_def chan_of_def make_chan_def)
  moreover have "\<forall>c<?n. id_str (heap s' ! c) = id_str (heap s ! c)"
    using s'(4) by (simp add: heap_new_client_old)
  moreover have "\<forall>c<?n. is_closed s' c = is_closed s c"
    using s'(5) old by (simp add: is_closed_def)
  moreover have "\<forall>c<?n. queue s' c = queue s c @ (if c \<in> set (clients s) then [join_notice mar] else [])"
    using s'(6) old by (auto simp: queue_def)
  ultimately show ?thesis
    using s'(1,3) by (simp add: wsHandler_def)
qed

lemma hub_inv_init: "hub_inv init"
  by (simp add: hub_inv_def init_def)

lemma step_hub_inv:
  assumes "hub_inv s"
  shows "\<exists>s'. step mar e s = Inr s' \<and> hub_inv s'"
proof (cases e)
  case (Connect uuid)
  from wsHandler_spec [OF assms, of mar uuid] obtain s'
    where s': "wsHandler mar uuid s = Inr s'"
      "clients s' = length (heap s) # clients s"
      "length (heap s') = Suc (length (heap s))"
      "\<not> is_closed s' (length (heap s))"
      "\<forall>c<length (heap s). is_closed s' c = is_closed s c"
    by blast
  have "hub_inv s'"
    using assms s'(2,3,4,5) unfolding hub_inv_def registered_def
    by (auto simp: less_Suc_eq)
  with s'(1) Connect show ?thesis by simp
next
  case (Disconnect conn)
  show ?thesis
  proof (cases "conn \<in> set (clients s)")
    case True
    from unregister_spec [OF assms True, of mar] obtain s'
      where s': "unregister mar conn s = Inr s'"
        "clients s' = removeAll conn (clients s)"
        "length (heap s') = length (heap s)"
        "\<forall>c. is_closed s' c = (is_closed s c \<or> c = conn)"
      by blast
    have "hub_inv s'"
      using assms s'(2,3,4) unfolding hub_inv_def registered_def
      by (auto simp: distinct_removeAll)
    with s'(1) Disconnect show ?thesis by simp
  next
    case False
    with assms Disconnect show ?thesis by (simp add: unregister_absent)
  qed
next
  case (Deliver m rdy)
  from broadcast_spec [OF assms, of rdy m] obtain s'
    where s': "broadcast rdy m s = Inr s'"
      "clients s' = filter rdy (clients s)"
      "length (heap s') = length (heap s)"
      "\<forall>c. is_closed s' c = (is_closed s c \<or> c \<in> set (clients s) \<and> \<not> rdy c)"
    by blast
  have "hub_inv s'"
    using assms s'(2,3,4) unfolding hub_inv_def registered_def
    by auto
  with s'(1) Deliver show ?thesis by simp
qed

lemma run_hub_inv:
  assumes "hub_inv s"
  shows "\<exists>s'. run mar evs s = Inr s' \<and> hub_inv s'"
  using assms
proof (induction evs arbitrary: s)
  case Nil
  then show ?case by simp
next
  case (Cons e evs)
  from step_hub_inv [OF Cons.prems, of mar e] obtain s1
    where "step mar e s = Inr s1" "hub_inv s1" by blast
  with Cons.IH [of s1] show ?case by simp
qed

lemma reachable_hub_inv: "run mar evs init = Inr s \<Longrightarrow> hub_inv s"
  using run_hub_inv [OF hub_inv_init, of mar evs] by auto

section \<open>The iteration order does not matter\<close>

text \<open>
  Every step from two states that differ only in the order of the keys succeeds on both
  and leaves two states that again differ only in that order.
\<close>

lemma heap_eqI:
  assumes "length (heap a) = length (heap b)"
    and "\<forall>c. id_str (heap a ! c) = id_str (heap b ! c)"
    and "\<forall>c. is_closed a c = is_closed b c"
    and "\<forall>c. queue a c = queue b c"
  shows "heap a = heap b"
proof (rule nth_equalityI)
  show "length (heap a) = length (heap b)" by fact
next
  fix c assume "c < length (heap a)"
  have "send (heap a ! c) = send (heap b ! c)"
    using assms(3,4) by (simp add: is_closed_def queue_def chan_of_def)
  with assms(2) show "heap a ! c = heap b ! c"
    by simp
qed

lemma step_order_irrelevant:
  assumes "hub_inv s" and "hub_inv t" and "same_map s t"
  shows "\<exists>s' t'. step mar e s = Inr s' \<and> step mar e t = Inr t' \<and> same_map s' t'"
proof -
  have hp: "heap t = heap s" and cl: "set (clients t) = set (clients s)"
    using assms(3) by (simp_all add: same_map_def)
  have obs: "\<And>c. is_closed t c = is_closed s c" "\<And>c. queue t c = queue s c"
    using hp by (simp_all add: is_closed_def queue_def chan_of_def)
  show ?thesis
  proof (cases e)
    case (Connect uuid)
    from wsHandler_spec [OF assms(1), of mar uuid] obtain s'
      where s': "wsHandler mar uuid s = Inr s'"
        "clients s' = length (heap s) # clients s"
        "length (heap s') = Suc (length (heap s))"
        "id_str (heap s' ! length (heap s)) = uuid"
        "\<forall>c<length (heap s). id_str (heap s' ! c) = id_str (heap s ! c)"
        "\<not> is_closed s' (length (heap s))"
        "\<forall>c<length (heap s). is_closed s' c = is_closed s c"
        "queue s' (length (heap s)) = []"
        "\<forall>c<length (heap s). queue s' c = queue s c @ (if c \<in> set (clients s) then [join_notice mar] else [])"
      by blast
    from wsHandler_spec [OF assms(2), of mar uuid] obtain t'
      where t': "wsHandler mar uuid t = Inr t'"
        "clients t' = length (heap t) # clients t"
        "length (heap t') = Suc (length (heap t))"
        "id_str (heap t' ! length (heap t)) = uuid"
        "\<forall>c<length (heap t). id_str (heap t' ! c) = id_str (heap t ! c)"
        "\<not> is_closed t' (length (heap t))"
        "\<forall>c<length (heap t). is_closed t' c = is_closed t c"
        "queue t' (length (heap t)) = []"
        "\<forall>c<length (heap t). queue t' c = queue t c @ (if c \<in> set (clients t) then [join_notice mar] else [])"
      by blast
    have "heap s' = heap t'"
    proof (rule nth_equalityI)
      show "length (heap s') = length (heap t')"
        using s'(3) t'(3) hp by simp
    next
      fix c assume "c < length (heap s')"
      then have c: "c < length (heap s) \<or> c = length (heap s)"
        using s'(3) by auto
      have "id_str (heap s' ! c) = id_str (heap t' ! c)"
        using c s'(4,5) t'(4,5) hp by auto
      moreover have "send (heap s' ! c) = send (heap t' ! c)"
      proof -
        have "is_closed s' c = is_closed t' c" "queue s' c = queue t' c"
          using c s'(6,7,8,9) t'(6,7,8,9) hp cl obs by auto
        then show ?thesis
          by (simp add: is_closed_def queue_def chan_of_def)
      qed
      ultimately show "heap s' ! c = heap t' ! c"
        by simp
    qed
    then have "same_map s' t'"
      using s'(2) t'(2) hp cl by (simp add: same_map_def)
    with s'(1) t'(1) Connect show ?thesis by simp
  next
    case (Disconnect conn)
    show ?thesis
    proof (cases "conn \<in> set (clients s)")
      case True
      then have True': "conn \<in> set (clients t)"
        using cl by simp
      from unregister_spec [OF assms(1) True, of mar] obtain s'
        where s': "unregister mar conn s = Inr s'"
          "clients s' = removeAll conn (clients s)"
          "length (heap s') = length (heap s)"
          "\<forall>c. id_str (heap s' ! c) = id_str (heap s ! c)"
          "\<forall>c. is_closed s' c = (is_closed s c \<or> c = conn)"
          "\<forall>c. queue s' c = queue s c @ (if c \<in> set (clients s) \<and> c \<noteq> conn then [leave_notice mar] else [])"
        by blast
      from unregister_spec [OF assms(2) True', of mar] obtain t'
        where t': "unregister mar conn t = Inr t'"
          "clients t' = removeAll conn (clients t)"
          "length (heap t') = length (heap t)"
          "\<forall>c. id_str (heap t' ! c) = id_str (heap t ! c)"
          "\<forall>c. is_closed t' c = (is_closed t c \<or> c = conn)"
          "\<forall>c. queue t' c = queue t c @ (if c \<in> set (clients t) \<and> c \<noteq> conn then [leave_notice mar] else [])"
        by blast
      have "heap s' = heap t'"
        using s'(3,4,5,6) t'(3,4,5,6) hp cl obs by (intro heap_eqI) simp_all
      then have "same_map s' t'"
        using s'(2) t'(2) cl by (simp add: same_map_def)
      with s'(1) t'(1) Disconnect show ?thesis by simp
    next
      case False
      then have "conn \<notin> set (clients t)"
        using cl by simp
      with False assms(3) Disconnect show ?thesis
        by (simp add: unregister_absent)
    qed
  next
    case (Deliver m rdy)
    from broadcast_spec [OF assms(1), of rdy m] obtain s'
      where s': "broadcast rdy m s = Inr s'"
        "clients s' = filter rdy (clients s)"
        "length (heap s') = length (heap s)"
        "\<forall>c. id_str (heap s' ! c) = id_str (heap s ! c)"
        "\<forall>c. is_closed s' c = (is_closed s c \<or> c \<in> set (clients s) \<and> \<not> rdy c)"
        "\<forall>c. queue s' c = queue s c @ (if c \<in> set (clients s) \<and> rdy c then [m] else [])"
      by blast
    from broadcast_spec [OF assms(2), of rdy m] obtain t'
      where t': "broadcast rdy m t = Inr t'"
        "clients t' = filter rdy (clients t)"
        "length (heap t') = length (heap t)"
        "\<forall>c. id_str (heap t' ! c) = id_str (heap t ! c)"
        "\<forall>c. is_closed t' c = (is_closed t c \<or> c \<in> set (clients t) \<and> \<not> rdy c)"
        "\<forall>c. queue t' c = queue t c @ (if c \<in> set (clients t) \<and> rdy c then [m] else [])"
      by blast
    have "heap s' = heap t'"
      using s'(3,4,5,6) t'(3,4,5,6) hp cl obs by (intro heap_eqI) simp_all
    then have "same_map s' t'"
      using s'(2) t'(2) cl by (simp add: same_map_def)
    with s'(1) t'(1) Deliver show ?thesis by simp
  qed
qed

section \<open>Evaluating the model\<close>

lemmas eval_defs = init_def wsHandler_def register_def unregister_def broadcast_def new_client_def
  ClientManager_send_def map_store_def map_delete_def join_notice_def leave_notice_def
  discard_err_def chan_send_def chan_close_def chan_of_def set_chan_def make_chan_def
  queue_def is_closed_def registered_def ex_A_def ex_AB_def wrap_def

lemmas json_defs = json_Marshal_def Message_zero_def join_Message_def leave_Message_def
  field_def encodeString_def encodeByte_def dquote_def backslash_def

lemma run_ex_A: "run mar [Connect ''A''] init = Inr ex_A"
  by (simp add: eval_defs)

lemma run_ex_AB: "run json_Marshal [Connect ''A'', Connect ''B''] init = Inr ex_AB"
  by (simp add: eval_defs)

lemma join_notice_json: \<open>join_notice json_Marshal = ''{"content":"New client connected"}''\<close>
  by (simp add: eval_defs json_defs)

lemma leave_notice_json: \<open>leave_notice json_Marshal = ''{"content":"/A socket disconnected."}''\<close>
  by (simp add: eval_defs json_defs)

lemma wrap_json:
  \<open>ident \<noteq> [] \<Longrightarrow> t \<noteq> [] \<Longrightarrow>
   wrap json_Marshal ident t = ''{"sender":'' @ encodeString ident @ '',"content":'' @ encodeString t @ ''}''\<close>
  by (simp add: wrap_def json_Marshal_def discard_err_def Message_zero_def field_def dquote_def)

lemma wrap_json_hi: \<open>wrap json_Marshal ''A'' ''hi'' = ''{"sender":"A","content":"hi"}''\<close>
  by (simp add: eval_defs json_defs)

section \<open>The claims\<close>

subsection \<open>C1: fan-out of a peer message\<close>

text \<open>
  Claim C1, as amended. In every state the manager can reach, the request that the inbound
  pump of a connection with the non-empty identifier \<open>A\<close> submits for a non-empty text
  \<open>t\<close> is a broadcast of the envelope \<^verbatim>\<open>{"sender":A,"content":t}\<close> (both strings in
  their JSON encoding), and processing it puts that envelope at the end of the queue of
  every registered connection whose queue accepts it at that moment, the originating
  connection among them; each of these stays registered.
\<close>

theorem C1_broadcast_reaches_accepting:
  assumes "run json_Marshal evs init = Inr s"
    and "id_str (heap s ! a) \<noteq> []" and "t \<noteq> []"
  shows \<open>\<exists>s'. start json_Marshal
            (map (\<lambda>req. (req, ready)) (Client_read json_Marshal (id_str (heap s ! a)) a [Some t])) s
           = Inr s'
         \<and> (\<forall>c \<in> set (clients s). ready c \<longrightarrow>
              registered s' c \<and>
              queue s' c = queue s c @
                [''{"sender":'' @ encodeString (id_str (heap s ! a)) @ '',"content":'' @ encodeString t @ ''}''])\<close>
proof -
  let ?m = "wrap json_Marshal (id_str (heap s ! a)) t"
  from broadcast_spec [OF reachable_hub_inv [OF assms(1)], of ready ?m] obtain s'
    where s': "broadcast ready ?m s = Inr s'" "clients s' = filter ready (clients s)"
      "\<forall>c. queue s' c = queue s c @ (if c \<in> set (clients s) \<and> ready c then [?m] else [])"
    by blast
  have "start json_Marshal
          (map (\<lambda>req. (req, ready)) (Client_read json_Marshal (id_str (heap s ! a)) a [Some t])) s
        = Inr s'"
    using s'(1) by simp
  moreover have "\<forall>c \<in> set (clients s). ready c \<longrightarrow> registered s' c \<and> queue s' c = queue s c @ [?m]"
    using s'(2,3) by (simp add: registered_def)
  ultimately show ?thesis
    using wrap_json [OF assms(2,3)] by auto
qed

text \<open>
  C1 at the state with the connections \<open>A\<close> and \<open>B\<close>, both queues accepting: the
  text \<^verbatim>\<open>hi\<close> from \<open>A\<close> arrives in both queues.
\<close>

theorem C1_witness:
  \<open>run json_Marshal [Connect ''A'', Connect ''B''] init = Inr ex_AB
   \<and> id_str (heap ex_AB ! 0) = ''A''
   \<and> (\<exists>s'. start json_Marshal [(Broadcast ''{"sender":"A","content":"hi"}'', \<lambda>c. True)] ex_AB = Inr s'
         \<and> registered s' 0 \<and> registered s' 1
         \<and> queue s' 0 = [join_notice json_Marshal, ''{"sender":"A","content":"hi"}'']
         \<and> queue s' 1 = [''{"sender":"A","content":"hi"}''])\<close>
proof -
  have id: "id_str (heap ex_AB ! 0) = ''A''"
    by (simp add: ex_AB_def)
  have h: "id_str (heap ex_AB ! 0) \<noteq> []" "''hi'' \<noteq> []"
    by (simp_all add: ex_AB_def)
  have enc: \<open>''{"sender":'' @ encodeString ''A'' @ '',"content":'' @ encodeString ''hi'' @ ''}''
     = ''{"sender":"A","content":"hi"}''\<close>
    by (simp add: json_defs)
  have cl: "set (clients ex_AB) = {0, 1}" and q: "queue ex_AB 0 = [join_notice json_Marshal]" "queue ex_AB 1 = []"
    by (auto simp add: ex_AB_def queue_def chan_of_def make_chan_def)
  from C1_broadcast_reaches_accepting [OF run_ex_AB h, of "\<lambda>c. True"]
  show ?thesis
    unfolding id enc using run_ex_AB wrap_json_hi cl q id by auto
qed

text \<open>
  C1 as stated fails. With one connection registered whose writer pump is not waiting on
  the channel, the broadcast of its own message does not reach its queue: the connection
  is evicted with an empty queue. And an empty text is wrapped as \<^verbatim>\<open>{"sender":"A"}\<close>,
  the content field left out by \<^verbatim>\<open>omitempty\<close>.
\<close>

theorem C1_counterexample:
  \<open>run json_Marshal [Connect ''A''] init = Inr ex_A
   \<and> queue ex_A 0 = []
   \<and> start json_Marshal
        (map (\<lambda>req. (req, \<lambda>c. False)) (Client_read json_Marshal (id_str (heap ex_A ! 0)) 0 [Some ''hi''])) ex_A
      = Inr \<lparr>clients = [], heap = [\<lparr>id_str = ''A'', send = \<lparr>sent = [], closed = True\<rparr>\<rparr>]\<rparr>
   \<and> wrap json_Marshal ''A'' [] = ''{"sender":"A"}''\<close>
  by (simp add: eval_defs json_defs)

subsection \<open>C2: a slow consumer is evicted without blocking the pass\<close>

text \<open>
  Claim C2, as amended. In a reachable state, let \<open>x\<close> be a registered connection whose
  queue cannot accept the message when the broadcast pass tries it. The pass returns;
  after it the queue of \<open>x\<close> is closed and \<open>x\<close> is no longer registered; the pass puts
  nothing but the message itself into any queue (no leave notice), and nothing at all
  into the queue of a connection that did not accept; and every other registered
  connection whose queue accepts receives the message and stays registered with an open
  queue.
\<close>

theorem C2_slow_consumer_evicted:
  assumes "run mar evs init = Inr s"
    and "registered s x" and "\<not> ready x"
  shows "\<exists>s'. start_iter mar ready (Broadcast message) s = Inr s'
           \<and> is_closed s' x \<and> \<not> registered s' x
           \<and> (\<forall>c. queue s' c = queue s c @ (if registered s c \<and> ready c then [message] else []))
           \<and> (\<forall>c \<in> set (clients s). ready c \<longrightarrow> registered s' c \<and> \<not> is_closed s' c)"
proof -
  have inv: "hub_inv s"
    using assms(1) by (rule reachable_hub_inv)
  from broadcast_spec [OF inv, of ready message] obtain s'
    where s': "broadcast ready message s = Inr s'" "clients s' = filter ready (clients s)"
      "\<forall>c. is_closed s' c = (is_closed s c \<or> c \<in> set (clients s) \<and> \<not> ready c)"
      "\<forall>c. queue s' c = queue s c @ (if c \<in> set (clients s) \<and> ready c then [message] else [])"
    by blast
  have "is_closed s' x" "\<not> registered s' x"
    using s'(2,3) assms(2,3) by (simp_all add: registered_def)
  moreover have "\<forall>c \<in> set (clients s). ready c \<longrightarrow> registered s' c \<and> \<not> is_closed s' c"
    using s'(2,3) hub_invD(3) [OF inv] by (simp add: registered_def)
  ultimately show ?thesis
    using s'(1,4) by (simp add: registered_def)
qed

text \<open>
  C2 with \<open>A\<close> accepting and \<open>B\<close> slow: \<open>B\<close> is closed and removed, \<open>A\<close> receives
  the message.
\<close>

theorem C2_witness:
  "run json_Marshal [Connect ''A'', Connect ''B''] init = Inr ex_AB
   \<and> registered ex_AB 1
   \<and> (\<exists>s'. start_iter json_Marshal (\<lambda>c. c = 0) (Broadcast ''m'') ex_AB = Inr s'
         \<and> is_closed s' 1 \<and> \<not> registered s' 1 \<and> queue s' 1 = []
         \<and> registered s' 0 \<and> \<not> is_closed s' 0
         \<and> queue s' 0 = [join_notice json_Marshal, ''m''])"
proof -
  have h: "registered ex_AB 1"
    by (simp add: ex_AB_def registered_def)
  have cl: "set (clients ex_AB) = {0, 1}" "registered ex_AB 0"
    and q: "queue ex_AB 0 = [join_notice json_Marshal]" "queue ex_AB 1 = []"
    by (auto simp add: ex_AB_def queue_def chan_of_def make_chan_def registered_def)
  from C2_slow_consumer_evicted [where ready = "\<lambda>c. c = 0" and message = "''m''", OF run_ex_AB h]
  show ?thesis
    using run_ex_AB h cl q by auto
qed

text \<open>
  C2 as stated fails. With \<open>A\<close> and \<open>B\<close> registered and neither queue accepting, the
  pass that evicts \<open>B\<close> does not deliver the message to the other registered
  connection \<open>A\<close>: it evicts \<open>A\<close> too, whose queue still ends with the join notice.
\<close>

theorem C2_counterexample:
  "run json_Marshal [Connect ''A'', Connect ''B''] init = Inr ex_AB
   \<and> registered ex_AB 0 \<and> registered ex_AB 1
   \<and> queue ex_AB 0 = [join_notice json_Marshal]
   \<and> start_iter json_Marshal (\<lambda>c. False) (Broadcast ''m'') ex_AB
       = Inr \<lparr>clients = [],
              heap = [\<lparr>id_str = ''A'', send = \<lparr>sent = [join_notice json_Marshal], closed = True\<rparr>\<rparr>,
                      \<lparr>id_str = ''B'', send = \<lparr>sent = [], closed = True\<rparr>\<rparr>]\<rparr>"
  by (simp add: eval_defs)

subsection \<open>C3: the join notice goes to the others\<close>

text \<open>
  Claim C3. In a reachable state whose registry is exactly \<open>{A, B}\<close>, let \<open>C\<close> be the
  connection \<^verbatim>\<open>wsHandler\<close> has just created. Processing \<open>Register C\<close> succeeds, the
  registry becomes \<open>{A, B, C}\<close> with one key more, the join notice is appended to the
  queues of \<open>A\<close> and of \<open>B\<close>, the queue of \<open>C\<close> stays empty, and the queue of
  every other client stays as it was.
\<close>

theorem C3_join_notice_to_others:
  assumes "run mar evs init = Inr s"
    and "set (clients s) = {A, B}" and "C = length (heap s)"
  shows "wsHandler mar uuid s = start_iter mar ready (Register C) (new_client uuid s)
         \<and> (\<exists>s'. start_iter mar ready (Register C) (new_client uuid s) = Inr s'
              \<and> set (clients s') = {A, B, C} \<and> C \<notin> {A, B}
              \<and> length (clients s') = Suc (length (clients s))
              \<and> queue s' A = queue s A @ [join_notice mar]
              \<and> queue s' B = queue s B @ [join_notice mar]
              \<and> queue s' C = []
              \<and> (\<forall>c<C. c \<noteq> A \<and> c \<noteq> B \<longrightarrow> queue s' c = queue s c))"
proof -
  have inv: "hub_inv s"
    using assms(1) by (rule reachable_hub_inv)
  have valid: "A < length (heap s)" "B < length (heap s)"
    using hub_invD(2) [OF inv] assms(2) by auto
  from wsHandler_spec [OF inv, of mar uuid] obtain s'
    where s': "wsHandler mar uuid s = Inr s'" "clients s' = length (heap s) # clients s"
      "queue s' (length (heap s)) = []"
      "\<forall>c<length (heap s). queue s' c = queue s c @ (if c \<in> set (clients s) then [join_notice mar] else [])"
    by blast
  have "queue s' A = queue s A @ [join_notice mar]" "queue s' B = queue s B @ [join_notice mar]"
    using s'(4) valid assms(2) by auto
  moreover have "set (clients s') = {A, B, C}" "length (clients s') = Suc (length (clients s))"
    using s'(2) assms(2,3) by auto
  moreover have "C \<notin> {A, B}"
    using valid assms(3) by auto
  moreover have "\<forall>c<C. c \<noteq> A \<and> c \<noteq> B \<longrightarrow> queue s' c = queue s c"
    using s'(4) assms(2,3) by simp
  ultimately show ?thesis
    using s'(1,3) assms(3) by (simp add: wsHandler_def)
qed

text \<open>C3 at the state with \<open>A\<close> and \<open>B\<close>, a third client connecting.\<close>

theorem C3_witness:
  "run json_Marshal [Connect ''A'', Connect ''B''] init = Inr ex_AB
   \<and> set (clients ex_AB) = {0, 1} \<and> 2 = length (heap ex_AB)
   \<and> (\<exists>s'. start_iter json_Marshal (\<lambda>c. True) (Register 2) (new_client ''C'' ex_AB) = Inr s'
         \<and> set (clients s') = {0, 1, 2}
         \<and> length (clients s') = 3
         \<and> queue s' 0 = [join_notice json_Marshal, join_notice json_Marshal]
         \<and> queue s' 1 = [join_notice json_Marshal]
         \<and> queue s' 2 = [])"
proof -
  have h: "set (clients ex_AB) = {0, 1}" "2 = length (heap ex_AB)"
    by (auto simp add: ex_AB_def)
  have q: "queue ex_AB 0 = [join_notice json_Marshal]" "queue ex_AB 1 = []" "length (clients ex_AB) = 2"
    by (auto simp add: ex_AB_def queue_def chan_of_def make_chan_def)
  from C3_join_notice_to_others [OF run_ex_AB h, of "''C''" "\<lambda>c. True"]
  show ?thesis
    using run_ex_AB h q by auto
qed

subsection \<open>C4: unregister is idempotent\<close>

text \<open>
  Claim C4. In a reachable state, processing \<open>Unregister conn\<close> succeeds, and processing
  it a second time changes nothing; so the two unregister requests that the inbound pump
  submits on a read error have the effect of one. If \<open>conn\<close> is not registered the
  state is unchanged. If it is, \<open>conn\<close> leaves the registry, its queue, open before, is
  closed, no other queue is closed, and the leave notice is appended to the queue of
  exactly the remaining members: never to the queue of \<open>conn\<close>.
\<close>

theorem C4_unregister_idempotent:
  assumes "run mar evs init = Inr s"
  shows "\<exists>s'. start_iter mar ready (Unregister conn) s = Inr s'
           \<and> start_iter mar ready (Unregister conn) s' = Inr s'
           \<and> start mar (map (\<lambda>req. (req, ready)) (Client_read mar ident conn (None # rest))) s = Inr s'
           \<and> (\<not> registered s conn \<longrightarrow> s' = s)
           \<and> (registered s conn \<longrightarrow>
                set (clients s') = set (clients s) - {conn}
                \<and> \<not> is_closed s conn \<and> is_closed s' conn
                \<and> (\<forall>c. c \<noteq> conn \<longrightarrow> is_closed s' c = is_closed s c)
                \<and> (\<forall>c. queue s' c = queue s c @ (if registered s' c then [leave_notice mar] else [])))"
proof (cases "registered s conn")
  case False
  then show ?thesis
    by (simp add: registered_def unregister_absent)
next
  case True
  have inv: "hub_inv s"
    using assms by (rule reachable_hub_inv)
  from True have mem: "conn \<in> set (clients s)"
    by (simp add: registered_def)
  from unregister_spec [OF inv mem, of mar] obtain s'
    where s': "unregister mar conn s = Inr s'" "clients s' = removeAll conn (clients s)"
      "\<forall>c. is_closed s' c = (is_closed s c \<or> c = conn)"
      "\<forall>c. queue s' c = queue s c @ (if c \<in> set (clients s) \<and> c \<noteq> conn then [leave_notice mar] else [])"
    by blast
  have "unregister mar conn s' = Inr s'"
    using s'(2) by (simp add: unregister_absent)
  moreover have "\<forall>c. queue s' c = queue s c @ (if registered s' c then [leave_notice mar] else [])"
    using s'(2,4) by (auto simp: registered_def)
  moreover have "\<not> is_closed s conn"
    using hub_invD(3) [OF inv mem] .
  moreover have "start mar (map (\<lambda>req. (req, ready)) (Client_read mar ident conn (None # rest))) s = Inr s'"
    using s'(1,2) by (simp add: unregister_absent)
  ultimately show ?thesis
    using True s'(1,2,3) by auto
qed

text \<open>C4 at the state with \<open>A\<close> and \<open>B\<close>, where \<open>B\<close> is unregistered twice.\<close>

theorem C4_witness:
  "run json_Marshal [Connect ''A'', Connect ''B''] init = Inr ex_AB
   \<and> (\<exists>s'. start_iter json_Marshal (\<lambda>c. True) (Unregister 1) ex_AB = Inr s'
         \<and> start_iter json_Marshal (\<lambda>c. True) (Unregister 1) s' = Inr s'
         \<and> start json_Marshal [(Unregister 1, \<lambda>c. True), (Unregister 1, \<lambda>c. True)] ex_AB = Inr s'
         \<and> set (clients s') = {0} \<and> is_closed s' 1 \<and> \<not> is_closed s' 0
         \<and> queue s' 0 = [join_notice json_Marshal, leave_notice json_Marshal]
         \<and> queue s' 1 = [])"
proof -
  have cl: "set (clients ex_AB) = {0, 1}" "registered ex_AB 1" "\<not> is_closed ex_AB 0"
    and q: "queue ex_AB 0 = [join_notice json_Marshal]" "queue ex_AB 1 = []"
    by (auto simp add: ex_AB_def queue_def chan_of_def make_chan_def registered_def is_closed_def)
  from C4_unregister_idempotent [where ready = "\<lambda>c. True" and conn = 1 and ident = "''B''"
      and rest = "[]", OF run_ex_AB]
  obtain s' where s': "start_iter json_Marshal (\<lambda>c. True) (Unregister 1) ex_AB = Inr s'"
      "start_iter json_Marshal (\<lambda>c. True) (Unregister 1) s' = Inr s'"
      "start json_Marshal (map (\<lambda>req. (req, \<lambda>c. True)) (Client_read json_Marshal ''B'' 1 [None])) ex_AB = Inr s'"
      "registered ex_AB 1 \<longrightarrow>
         set (clients s') = set (clients ex_AB) - {1} \<and> \<not> is_closed ex_AB 1 \<and> is_closed s' 1
         \<and> (\<forall>c. c \<noteq> 1 \<longrightarrow> is_closed s' c = is_closed ex_AB c)
         \<and> (\<forall>c. queue s' c = queue ex_AB c @ (if registered s' c then [leave_notice json_Marshal] else []))"
    by blast
  from s'(4) cl(2) have r: "set (clients s') = set (clients ex_AB) - {1}" "is_closed s' 1"
      "is_closed s' 0 = is_closed ex_AB 0"
      "queue s' 0 = queue ex_AB 0 @ (if registered s' 0 then [leave_notice json_Marshal] else [])"
      "queue s' 1 = queue ex_AB 1 @ (if registered s' 1 then [leave_notice json_Marshal] else [])"
    by simp_all
  have c0: "set (clients s') = {0}"
    using r(1) cl(1) by auto
  then have "registered s' 0" "\<not> registered s' 1"
    by (simp_all add: registered_def)
  with r c0 cl q have "set (clients s') = {0} \<and> is_closed s' 1 \<and> \<not> is_closed s' 0
         \<and> queue s' 0 = [join_notice json_Marshal, leave_notice json_Marshal]
         \<and> queue s' 1 = []"
    by simp
  moreover have "start json_Marshal [(Unregister 1, \<lambda>c. True), (Unregister 1, \<lambda>c. True)] ex_AB = Inr s'"
    using s'(3) by simp
  ultimately show ?thesis
    using s'(1,2) run_ex_AB by blast
qed

subsection \<open>C5: registering a connection that is present\<close>

text \<open>
  Claim C5, as amended. The manager has no \<open>DuplicateIdentity\<close> error, or any check of
  identifiers: the registry is keyed by the pointer. In a reachable state, processing
  \<open>Register conn\<close> for a registered \<open>conn\<close> succeeds; the map store overwrites the key,
  so the registry is unchanged and no queue is closed; and the join notice is sent once
  more to every other member.
\<close>

theorem C5_register_present_succeeds:
  assumes "run mar evs init = Inr s"
    and "registered s conn"
  shows "\<exists>s'. start_iter mar ready (Register conn) s = Inr s'
           \<and> clients s' = clients s
           \<and> (\<forall>c. is_closed s' c = is_closed s c)
           \<and> (\<forall>c. queue s' c = queue s c @ (if registered s c \<and> c \<noteq> conn then [join_notice mar] else []))"
proof -
  have inv: "hub_inv s"
    using assms(1) by (rule reachable_hub_inv)
  have pre: "\<forall>c\<in>set (clients s). c \<noteq> conn \<longrightarrow> c < length (heap s) \<and> \<not> is_closed s c"
    using hub_invD(2,3) [OF inv] by simp
  from register_spec [OF hub_invD(1) [OF inv] pre, of mar] assms(2)
  show ?thesis
    by (auto simp: registered_def)
qed

text \<open>C5 as amended, at the state with \<open>A\<close> and \<open>B\<close>, registering \<open>B\<close> again.\<close>

theorem C5_witness:
  "run json_Marshal [Connect ''A'', Connect ''B''] init = Inr ex_AB
   \<and> registered ex_AB 1
   \<and> (\<exists>s'. start_iter json_Marshal (\<lambda>c. True) (Register 1) ex_AB = Inr s'
         \<and> clients s' = [1, 0] \<and> \<not> is_closed s' 0 \<and> \<not> is_closed s' 1
         \<and> queue s' 0 = [join_notice json_Marshal, join_notice json_Marshal]
         \<and> queue s' 1 = [])"
proof -
  have cl: "clients ex_AB = [1, 0]" "registered ex_AB 1" "registered ex_AB 0"
       "\<not> is_closed ex_AB 0" "\<not> is_closed ex_AB 1"
    and q: "queue ex_AB 0 = [join_notice json_Marshal]" "queue ex_AB 1 = []"
    by (auto simp add: ex_AB_def queue_def chan_of_def make_chan_def registered_def is_closed_def)
  from C5_register_present_succeeds [where ready = "\<lambda>c. True", OF run_ex_AB cl(2)]
  show ?thesis
    using run_ex_AB cl q by auto
qed

text \<open>
  C5 as stated fails: registering the one registered connection again returns the same
  state, not an error; and a second client with the identifier of the first is
  registered beside it.
\<close>

theorem C5_counterexample:
  "run json_Marshal [Connect ''A''] init = Inr ex_A
   \<and> registered ex_A 0
   \<and> start_iter json_Marshal (\<lambda>c. True) (Register 0) ex_A = Inr ex_A
   \<and> run json_Marshal [Connect ''A'', Connect ''A''] init =
       Inr \<lparr>clients = [1, 0],
            heap = [\<lparr>id_str = ''A'', send = \<lparr>sent = [join_notice json_Marshal], closed = False\<rparr>\<rparr>,
                    \<lparr>id_str = ''A'', send = \<lparr>sent = [], closed = False\<rparr>\<rparr>]\<rparr>"
  by (simp add: eval_defs)

subsection \<open>C6: the system notices\<close>

text \<open>
  Claim C6, evaluated on the code. Both notices set only \<open>Content\<close>, and their JSON has
  the one field \<^verbatim>\<open>content\<close>. The leave notice begins with the sentinel \<^verbatim>\<open>/\<close>; the
  join notice is \<^verbatim>\<open>New client connected\<close> and begins with \<^verbatim>\<open>N\<close>, where the
  repository's own walkthrough has \<^verbatim>\<open>/A new socket connected.\<close> and its user
  interface recognises a notice by the leading \<^verbatim>\<open>/\<close>.
\<close>

theorem C6_notices_content_only:
  \<open>Sender join_Message = [] \<and> Recipient join_Message = []
   \<and> Sender leave_Message = [] \<and> Recipient leave_Message = []
   \<and> join_notice json_Marshal = ''{"content":"New client connected"}''
   \<and> leave_notice json_Marshal = ''{"content":"/A socket disconnected."}''
   \<and> hd (Content leave_Message) = CHR ''/''
   \<and> hd (Content join_Message) = CHR ''N''\<close>
  by (simp add: eval_defs json_defs)

subsection \<open>C7: registered if and only if the queue is open\<close>

text \<open>
  Claim C7. The invariant \<open>hub_inv\<close> holds of the initial state; every step (a client
  that \<^verbatim>\<open>wsHandler\<close> creates with a new open channel and registers, an unregister, a
  broadcast) from a state that satisfies it succeeds and leads to a state that satisfies
  it; so every run of the server ends in a state in which each client that has been
  created is registered if and only if its queue has not been closed.
\<close>

theorem C7_registered_iff_open:
  "hub_inv init
   \<and> (hub_inv s \<longrightarrow> (\<exists>s'. step mar e s = Inr s' \<and> hub_inv s'))
   \<and> (\<exists>s'. run mar evs init = Inr s'
         \<and> (\<forall>c<length (heap s'). registered s' c = (\<not> is_closed s' c)))"
proof -
  from run_hub_inv [OF hub_inv_init, of mar evs] obtain s'
    where s': "run mar evs init = Inr s'" "hub_inv s'"
    by blast
  from s'(2) have "\<forall>c<length (heap s'). registered s' c = (\<not> is_closed s' c)"
    by (simp add: hub_inv_def)
  with s'(1) hub_inv_init step_hub_inv [of s mar e] show ?thesis
    by blast
qed

text \<open>
  C7 on a run in which \<open>B\<close> is evicted by a broadcast and \<open>A\<close> is unregistered.
\<close>

theorem C7_witness:
  "hub_inv ex_AB
   \<and> (\<exists>s'. step json_Marshal (Deliver ''m'' (\<lambda>c. c = 0)) ex_AB = Inr s' \<and> hub_inv s')
   \<and> (\<exists>s'. run json_Marshal [Connect ''A'', Connect ''B'', Deliver ''m'' (\<lambda>c. c = 0), Disconnect 1,
                              Disconnect 0, Disconnect 0] init = Inr s'
         \<and> length (heap s') = 2
         \<and> registered s' 0 = (\<not> is_closed s' 0) \<and> registered s' 1 = (\<not> is_closed s' 1))"
proof -
  let ?evs = "[Connect ''A'', Connect ''B'', Deliver ''m'' (\<lambda>c. c = 0), Disconnect 1,
               Disconnect 0, Disconnect 0]"
  have inv: "hub_inv ex_AB"
    by (simp add: hub_inv_def ex_AB_def registered_def is_closed_def chan_of_def make_chan_def lessThan_Suc)
  from C7_registered_iff_open [of ex_AB json_Marshal "Deliver ''m'' (\<lambda>c. c = 0)" ?evs]
  obtain s' where s': "run json_Marshal ?evs init = Inr s'"
    "\<forall>c<length (heap s'). registered s' c = (\<not> is_closed s' c)"
    by blast
  have "run json_Marshal ?evs init = Inr \<lparr>clients = [],
      heap = [\<lparr>id_str = ''A'', send = \<lparr>sent = [join_notice json_Marshal, ''m''], closed = True\<rparr>\<rparr>,
              \<lparr>id_str = ''B'', send = \<lparr>sent = [], closed = True\<rparr>\<rparr>]\<rparr>"
    by (simp add: eval_defs)
  with s'(1) have len: "length (heap s') = 2"
    by auto
  with s'(2) have "registered s' 0 = (\<not> is_closed s' 0)" "registered s' 1 = (\<not> is_closed s' 1)"
    by simp_all
  with s'(1) len inv C7_registered_iff_open [of ex_AB json_Marshal "Deliver ''m'' (\<lambda>c. c = 0)" ?evs]
  show ?thesis
    by blast
qed

subsection \<open>C8: two broadcasts of one origin keep their order\<close>



subsection \<open>Serialization of an envelope\<close>

text \<open>
  \<open>json_Marshal\<close> returns a payload for every message, as \<^verbatim>\<open>json.Marshal\<close> does on a
  struct of three strings: the error that the call sites discard does not arise in the
  server.
\<close>

lemma json_Marshal_never_fails: "json_Marshal m \<noteq> Inl e"
  by (simp add: json_Marshal_def)

subsection \<open>C10: no queue is closed twice\<close>

text \<open>
  A step closes the queues of exactly the connections it removes from the registry, and
  leaves a closed queue as it is.
\<close>

lemma step_closes_what_it_removes:
  assumes "hub_inv s"
  shows "\<exists>s'. step mar e s = Inr s' \<and> hub_inv s'
           \<and> (\<forall>c<length (heap s).
                 (is_closed s c \<longrightarrow> is_closed s' c \<and> queue s' c = queue s c)
                 \<and> ((\<not> is_closed s c \<and> is_closed s' c) = (registered s c \<and> \<not> registered s' c)))"
proof (cases e)
  case (Connect uuid)
  from wsHandler_spec [OF assms, of mar uuid] obtain s'
    where s': "wsHandler mar uuid s = Inr s'"
      "clients s' = length (heap s) # clients s"
      "\<forall>c<length (heap s). is_closed s' c = is_closed s c"
      "\<forall>c<length (heap s). queue s' c = queue s c @ (if c \<in> set (clients s) then [join_notice mar] else [])"
    by blast
  have "\<forall>c<length (heap s).
          (is_closed s c \<longrightarrow> is_closed s' c \<and> queue s' c = queue s c)
          \<and> ((\<not> is_closed s c \<and> is_closed s' c) = (registered s c \<and> \<not> registered s' c))"
    using s'(2,3,4) hub_invD(3) [OF assms] by (auto simp: registered_def)
  with s'(1) Connect step_hub_inv [OF assms, of mar e] show ?thesis by auto
next
  case (Disconnect conn)
  show ?thesis
  proof (cases "conn \<in> set (clients s)")
    case True
    from unregister_spec [OF assms True, of mar] obtain s'
      where s': "unregister mar conn s = Inr s'"
        "clients s' = removeAll conn (clients s)"
        "\<forall>c. is_closed s' c = (is_closed s c \<or> c = conn)"
        "\<forall>c. queue s' c = queue s c @ (if c \<in> set (clients s) \<and> c \<noteq> conn then [leave_notice mar] else [])"
      by blast
    have "\<forall>c<length (heap s).
          (is_closed s c \<longrightarrow> is_closed s' c \<and> queue s' c = queue s c)
          \<and> ((\<not> is_closed s c \<and> is_closed s' c) = (registered s c \<and> \<not> registered s' c))"
      using s'(2,3,4) hub_invD(3) [OF assms] True by (auto simp: registered_def)
    with s'(1) Disconnect step_hub_inv [OF assms, of mar e] show ?thesis by auto
  next
    case False
    with assms Disconnect show ?thesis by (simp add: unregister_absent)
  qed
next
  case (Deliver m rdy)
  from broadcast_spec [OF assms, of rdy m] obtain s'
    where s': "broadcast rdy m s = Inr s'"
      "clients s' = filter rdy (clients s)"
      "\<forall>c. is_closed s' c = (is_closed s c \<or> c \<in> set (clients s) \<and> \<not> rdy c)"
      "\<forall>c. queue s' c = queue s c @ (if c \<in> set (clients s) \<and> rdy c then [m] else [])"
    by blast
  have "\<forall>c<length (heap s).
          (is_closed s c \<longrightarrow> is_closed s' c \<and> queue s' c = queue s c)
          \<and> ((\<not> is_closed s c \<and> is_closed s' c) = (registered s c \<and> \<not> registered s' c))"
    using s'(2,3,4) hub_invD(3) [OF assms] by (auto simp: registered_def)
  with s'(1) Deliver step_hub_inv [OF assms, of mar e] show ?thesis by auto
qed

text \<open>
  Claim C10, as amended: for connections that are registered once, each by
  \<^verbatim>\<open>wsHandler\<close> when it has created the client, as the server does. A second
  \<^verbatim>\<open>close\<close> of a channel is the panic \<open>CloseOfClosedChannel\<close>, which ends the run. No
  run of the server panics, however it is continued. In a reachable state every step
  succeeds; a queue that is closed stays closed and keeps its content; and a queue is
  closed by the step exactly when the step removes its connection from the registry, so
  that only registered connections, whose queues are open, are ever closed. In
  particular, after a broadcast has evicted a slow consumer, an unregister request for it
  changes nothing.
\<close>

theorem C10_no_second_close:
  assumes "run mar evs init = Inr s"
  shows "(\<exists>s'. run mar (evs @ later) init = Inr s')
         \<and> (\<exists>s'. step mar e s = Inr s'
               \<and> (\<forall>c<length (heap s).
                     (is_closed s c \<longrightarrow> is_closed s' c \<and> queue s' c = queue s c)
                     \<and> ((\<not> is_closed s c \<and> is_closed s' c) = (registered s c \<and> \<not> registered s' c))))
         \<and> (registered s x \<and> \<not> ready x \<longrightarrow>
              (\<exists>s'. step mar (Deliver message ready) s = Inr s' \<and> is_closed s' x
                 \<and> step mar (Disconnect x) s' = Inr s'))"
proof -
  have inv: "hub_inv s"
    using assms by (rule reachable_hub_inv)
  have a: "\<exists>s'. run mar (evs @ later) init = Inr s'"
    using run_hub_inv [OF hub_inv_init, of mar "evs @ later"] by blast
  have b: "\<exists>s'. step mar e s = Inr s'
               \<and> (\<forall>c<length (heap s).
                     (is_closed s c \<longrightarrow> is_closed s' c \<and> queue s' c = queue s c)
                     \<and> ((\<not> is_closed s c \<and> is_closed s' c) = (registered s c \<and> \<not> registered s' c)))"
    using step_closes_what_it_removes [OF inv, of mar e] by blast
  have c: "registered s x \<and> \<not> ready x \<longrightarrow>
              (\<exists>s'. step mar (Deliver message ready) s = Inr s' \<and> is_closed s' x
                 \<and> step mar (Disconnect x) s' = Inr s')"
  proof
    assume h: "registered s x \<and> \<not> ready x"
    from broadcast_spec [OF inv, of ready message] obtain s'
      where s': "broadcast ready message s = Inr s'" "clients s' = filter ready (clients s)"
        "\<forall>c. is_closed s' c = (is_closed s c \<or> c \<in> set (clients s) \<and> \<not> ready c)"
      by blast
    have "is_closed s' x" "x \<notin> set (clients s')"
      using s'(2,3) h by (simp_all add: registered_def)
    with s'(1) show "\<exists>s'. step mar (Deliver message ready) s = Inr s' \<and> is_closed s' x
                 \<and> step mar (Disconnect x) s' = Inr s'"
      by (simp add: unregister_absent)
  qed
  from a b c show ?thesis
    by blast
qed

text \<open>
  C10 on a run in which \<open>B\<close> is evicted and then unregistered twice.
\<close>

theorem C10_witness:
  "run json_Marshal [Connect ''A'', Connect ''B''] init = Inr ex_AB
   \<and> registered ex_AB 1
   \<and> (\<exists>s'. run json_Marshal ([Connect ''A'', Connect ''B''] @
               [Deliver ''m'' (\<lambda>c. c = 0), Disconnect 1, Disconnect 1, Disconnect 0, Disconnect 0]) init = Inr s')
   \<and> (\<exists>s'. step json_Marshal (Deliver ''m'' (\<lambda>c. c = 0)) ex_AB = Inr s' \<and> is_closed s' 1
         \<and> step json_Marshal (Disconnect 1) s' = Inr s')"
proof -
  have h: "registered ex_AB 1"
    by (simp add: ex_AB_def registered_def)
  from C10_no_second_close [where ready = "\<lambda>c. c = 0" and x = 1 and message = "''m''"
      and later = "[Deliver ''m'' (\<lambda>c. c = 0), Disconnect 1, Disconnect 1, Disconnect 0, Disconnect 0]",
      OF run_ex_AB] h run_ex_AB
  show ?thesis
    by simp
qed

text \<open>
  C10 as stated fails for a sequence of requests that registers one connection twice:
  after register, unregister and register again the connection is in the registry with a
  closed queue, and the next unregister closes it a second time.
\<close>

theorem C10_counterexample:
  "start json_Marshal
     [(Register 0, \<lambda>c. True), (Unregister 0, \<lambda>c. True), (Register 0, \<lambda>c. True), (Unregister 0, \<lambda>c. True)]
     (new_client ''A'' init)
   = Inl CloseOfClosedChannel
   \<and> start json_Marshal [(Register 0, \<lambda>c. True), (Unregister 0, \<lambda>c. True), (Register 0, \<lambda>c. True)]
       (new_client ''A'' init)
     = Inr \<lparr>clients = [0], heap = [\<lparr>id_str = ''A'', send = \<lparr>sent = [], closed = True\<rparr>\<rparr>]\<rparr>"
  by (simp add: eval_defs)

end
